theory Spec2Isabelle
  imports Main "HOL-Library.Word"
begin

section \<open>The channel of \<open>channel.hpp\<close>\<close>

text \<open>
  \<open>chan::channel<Ts...>\<close> is a FIFO queue of tuples guarded by one mutex and one
  condition variable. Every member function takes the mutex before it reads or writes a
  field and holds it until it returns or suspends in \<open>cv.wait\<close>, so each call is one atomic
  step on the fields. The model is that step: a function from the fields before the call
  to the value returned and the fields after it.

  \<^item> \<open>tuple<Ts...>\<close> is the type variable \<open>'a\<close>; \<open>std::queue\<close> is a list, head first.
  \<^item> \<open>unsigned int\<close> is \<open>32 word\<close>, \<open>size_t\<close> is \<open>64 word\<close> (an LP64 target).
    \<open>queue.size()\<close> is the length of the list, which a real queue keeps below \<open>2 ^ 64\<close>;
    comparisons against \<open>buffer_size\<close> are therefore made on naturals, and the one
    subtraction of the source is made on \<open>64 word\<close>, where it wraps as \<open>size_t\<close> does.
  \<^item> \<open>cv.wait(lock, pred)\<close> is \<open>while (!pred()) wait(lock)\<close>. A call whose predicate is
    false suspends with the fields untouched: the outcome \<open>Blocked\<close>. When another thread
    notifies, the predicate is evaluated again on the fields of that moment, which is the
    same test as running the step again from the start (the guard in front of \<open>cv.wait\<close>
    in \<open>send\<close> is the negation of its predicate, and in \<open>recv\<close> the predicate is true
    whenever \<open>sealed\<close> is).
  \<^item> \<open>cv.notify_one\<close> and \<open>cv.notify_all\<close> change no field and are not part of the step.
\<close>

type_synonym size_t = "64 word"
type_synonym uint = "32 word"

record 'a channel =
  queue :: "'a list"
  closed :: bool
  sealed :: bool
  dropped_count_f :: size_t
  buffer_size :: uint

datatype 'r outcome = Blocked | Returned 'r

subsection \<open>Construction, close and seal\<close>

text \<open>
  The constructor's initialiser list is \<open>closed(false), sealed(false),
  buffer_size(buffer_size)\<close>; the queue is default-constructed (empty). \<open>dropped_count_\<close>
  is not in the list and has no default member initialiser, so it keeps whatever the
  storage of the object held: the parameter \<open>indeterminate\<close>.
\<close>

definition channel_init :: "size_t \<Rightarrow> uint \<Rightarrow> 'a channel" where
  "channel_init indeterminate bs =
     \<lparr>queue = [], closed = False, sealed = False,
      dropped_count_f = indeterminate, buffer_size = bs\<rparr>"

definition close :: "'a channel \<Rightarrow> 'a channel" where
  "close s = (if closed s then s else s\<lparr>closed := True\<rparr>)"

definition is_closed :: "'a channel \<Rightarrow> bool" where
  "is_closed s = closed s"

definition seal :: "'a channel \<Rightarrow> 'a channel" where
  "seal s = (if closed s \<or> sealed s then s else s\<lparr>sealed := True\<rparr>)"

definition is_sealed :: "'a channel \<Rightarrow> bool" where
  "is_sealed s = sealed s"

definition is_empty :: "'a channel \<Rightarrow> bool" where
  "is_empty s = (queue s = [])"

definition is_full :: "'a channel \<Rightarrow> bool" where
  "is_full s = (if buffer_size s = 0 then False
                else length (queue s) \<ge> unat (buffer_size s))"

definition size_chan :: "'a channel \<Rightarrow> size_t" where
  "size_chan s = of_nat (length (queue s))"

definition dropped_count :: "'a channel \<Rightarrow> size_t" where
  "dropped_count s = dropped_count_f s"

subsection \<open>send\<close>

text \<open>The loop \<open>while (queue.size() > buffer_size) queue.pop();\<close> on the list.\<close>

fun pop_excess :: "nat \<Rightarrow> 'a list \<Rightarrow> 'a list" where
  "pop_excess b [] = []"
| "pop_excess b (x # xs) = (if length (x # xs) > b then pop_excess b xs else x # xs)"

text \<open>The predicate handed to \<open>cv.wait\<close> in \<open>send\<close>.\<close>

definition send_pred :: "'a channel \<Rightarrow> bool" where
  "send_pred s = (closed s \<or> sealed s \<or> length (queue s) < unat (buffer_size s))"

text \<open>
  The part of \<open>send\<close> after the wait: the rejection test, the push, the drop step and the
  store into \<open>dropped_count_\<close>. \<open>d\<close> starts at \<open>0\<close> and is overwritten by
  \<open>queue.size() - buffer_size\<close> (in \<open>size_t\<close>) before the loop runs, whenever
  \<open>buffer_size > 0\<close>.
\<close>

definition send_body :: "'a \<Rightarrow> 'a channel \<Rightarrow> bool \<times> 'a channel" where
  "send_body x s =
     (if closed s \<or> sealed s then (False, s)
      else
        let q1 = queue s @ [x];
            d = (if buffer_size s > 0
                 then (of_nat (length q1) :: size_t) - ucast (buffer_size s)
                 else 0);
            q2 = (if buffer_size s > 0
                  then pop_excess (unat (buffer_size s)) q1
                  else q1)
        in (True, s\<lparr>queue := q2, dropped_count_f := d\<rparr>))"

text \<open>\<open>send<wait_while_full>(args...)\<close>; the template argument is the first parameter.\<close>

definition send :: "bool \<Rightarrow> 'a \<Rightarrow> 'a channel \<Rightarrow> bool outcome \<times> 'a channel" where
  "send wait_while_full x s =
     (if wait_while_full \<and> \<not> closed s \<and> \<not> sealed s
         \<and> length (queue s) \<ge> unat (buffer_size s) \<and> \<not> send_pred s
      then (Blocked, s)
      else (Returned (fst (send_body x s)), snd (send_body x s)))"

subsection \<open>recv\<close>

text \<open>The predicate handed to \<open>cv.wait\<close> in \<open>recv\<close>.\<close>

definition recv_pred :: "'a channel \<Rightarrow> bool" where
  "recv_pred s = (closed s \<or> queue s \<noteq> [] \<or> (sealed s \<and> queue s = []))"

text \<open>
  The part of \<open>recv\<close> after the wait. The result is \<open>None\<close> where the source returns
  \<open>false\<close> (the out-parameters are not written) and \<open>Some m\<close> where it returns \<open>true\<close>
  after assigning the front element \<open>m\<close> to them.
\<close>

definition recv_body :: "'a channel \<Rightarrow> 'a option \<times> 'a channel" where
  "recv_body s =
     (if closed s then (None, s)
      else if sealed s \<and> queue s = [] then (None, s\<lparr>closed := True\<rparr>)
      else if queue s = [] then (None, s)
      else (Some (hd (queue s)), s\<lparr>queue := tl (queue s)\<rparr>))"

text \<open>\<open>recv<wait>(out...)\<close>; the template argument is the first parameter.\<close>

definition recv :: "bool \<Rightarrow> 'a channel \<Rightarrow> 'a option outcome \<times> 'a channel" where
  "recv wait s =
     (if \<not> sealed s \<and> wait \<and> \<not> recv_pred s
      then (Blocked, s)
      else (Returned (fst (recv_body s)), snd (recv_body s)))"

subsection \<open>Sequences of calls\<close>

text \<open>
  One constructor per public member function. \<open>step\<close> runs one call and gives what it
  returned and the fields after it; \<open>run\<close> runs a list of calls in order. A call that
  suspends leaves the fields as they were, so the calls after it in the list stand for
  what other threads do while it waits.
\<close>

datatype 'a call =
    Close | Seal | Send bool 'a | Recv bool
  | IsClosed | IsSealed | IsEmpty | IsFull | Size | DroppedCount

datatype 'a result =
    RVoid | RBool bool | RSize size_t
  | RSend "bool outcome" | RRecv "'a option outcome"

fun step :: "'a call \<Rightarrow> 'a channel \<Rightarrow> 'a result \<times> 'a channel" where
  "step Close s = (RVoid, close s)"
| "step Seal s = (RVoid, seal s)"
| "step (Send w x) s = (RSend (fst (send w x s)), snd (send w x s))"
| "step (Recv w) s = (RRecv (fst (recv w s)), snd (recv w s))"
| "step IsClosed s = (RBool (is_closed s), s)"
| "step IsSealed s = (RBool (is_sealed s), s)"
| "step IsEmpty s = (RBool (is_empty s), s)"
| "step IsFull s = (RBool (is_full s), s)"
| "step Size s = (RSize (size_chan s), s)"
| "step DroppedCount s = (RSize (dropped_count s), s)"

fun run :: "'a call list \<Rightarrow> 'a channel \<Rightarrow> 'a result list \<times> 'a channel" where
  "run [] s = ([], s)"
| "run (c # cs) s =
     (fst (step c s) # fst (run cs (snd (step c s))), snd (run cs (snd (step c s))))"

text \<open>The three states of the specification, read off the two flags.\<close>

datatype chan_state = Open | Sealed | Closed

definition state_of :: "'a channel \<Rightarrow> chan_state" where
  "state_of s = (if closed s then Closed else if sealed s then Sealed else Open)"

text \<open>
  The order in which the states may follow each other: \<open>Open\<close> to anything, \<open>Sealed\<close> to
  \<open>Sealed\<close> or \<open>Closed\<close>, \<open>Closed\<close> to \<open>Closed\<close> only.
\<close>

fun advances :: "chan_state \<Rightarrow> chan_state \<Rightarrow> bool" where
  "advances Open t = True"
| "advances Sealed t = (t = Sealed \<or> t = Closed)"
| "advances Closed t = (t = Closed)"

text \<open>A \<open>send\<close> that returned \<open>false\<close>, a \<open>recv\<close> that returned \<open>false\<close>; any other call.\<close>

definition failed :: "'a result \<Rightarrow> bool" where
  "failed r = (case r of RSend out \<Rightarrow> out = Returned False
                       | RRecv out \<Rightarrow> out = Returned None
                       | _ \<Rightarrow> True)"

text \<open>The capacity invariant: a bounded channel holds at most \<open>buffer_size\<close> messages.\<close>

definition within_capacity :: "'a channel \<Rightarrow> bool" where
  "within_capacity s = (buffer_size s = 0 \<or> length (queue s) \<le> unat (buffer_size s))"

text \<open>
  Reading a run: \<open>accepted\<close> are the messages of the sends that returned \<open>true\<close>,
  \<open>delivered\<close> the messages handed out by the receives that returned \<open>true\<close>, both in
  call order. A send \<open>evicts\<close> when it returns \<open>true\<close> on a bounded channel that was
  already at capacity, so that its loop pops at least one element.
\<close>

fun accepted :: "'a call list \<Rightarrow> 'a result list \<Rightarrow> 'a list" where
  "accepted (Send w x # cs) (RSend (Returned True) # rs) = x # accepted cs rs"
| "accepted (c # cs) (r # rs) = accepted cs rs"
| "accepted _ _ = []"

fun delivered :: "'a result list \<Rightarrow> 'a list" where
  "delivered (RRecv (Returned (Some m)) # rs) = m # delivered rs"
| "delivered (r # rs) = delivered rs"
| "delivered [] = []"

fun evicts :: "'a call \<Rightarrow> 'a channel \<Rightarrow> bool" where
  "evicts (Send w x) s =
     (fst (send w x s) = Returned True \<and> 0 < buffer_size s
      \<and> length (queue s) \<ge> unat (buffer_size s))"
| "evicts _ s = False"

fun no_eviction :: "'a call list \<Rightarrow> 'a channel \<Rightarrow> bool" where
  "no_eviction [] s = True"
| "no_eviction (c # cs) s = (\<not> evicts c s \<and> no_eviction cs (snd (step c s)))"

section \<open>Basic facts\<close>

lemma pop_excess_drop: "pop_excess b xs = drop (length xs - b) xs"
  by (induction xs) (auto simp: Suc_diff_le)

lemma length_pop_excess: "length (pop_excess b xs) = min b (length xs)"
  by (simp add: pop_excess_drop)

lemma closed_close: "closed (close s)"
  by (simp add: close_def)

lemma queue_close: "queue (close s) = queue s"
  by (simp add: close_def)

lemma queue_seal: "queue (seal s) = queue s"
  by (simp add: seal_def)

subsection \<open>What one call does to the fields\<close>

lemma step_closed_id: "closed s \<Longrightarrow> snd (step c s) = s"
  by (cases c) (simp_all add: close_def seal_def send_def send_body_def recv_def recv_body_def recv_pred_def)

lemma run_closed_id: "closed s \<Longrightarrow> snd (run cs s) = s"
  by (induction cs arbitrary: s) (simp_all add: step_closed_id)

lemma step_buffer_size: "buffer_size (snd (step c s)) = buffer_size s"
  by (cases c) (simp_all add: close_def seal_def send_def send_body_def recv_def recv_body_def Let_def)

lemma run_buffer_size: "buffer_size (snd (run cs s)) = buffer_size s"
  by (induction cs arbitrary: s) (simp_all add: step_buffer_size)

lemma step_sealed_mono: "sealed s \<Longrightarrow> sealed (snd (step c s))"
  by (cases c) (simp_all add: close_def seal_def send_def send_body_def recv_def recv_body_def Let_def)

lemma run_sealed_mono: "sealed s \<Longrightarrow> sealed (snd (run cs s))"
  by (induction cs arbitrary: s) (simp_all add: step_sealed_mono)

subsection \<open>send\<close>

lemma send_rejected_iff:
  "fst (send w x s) = Returned False \<longleftrightarrow> closed s \<or> sealed s"
  by (simp add: send_def send_body_def send_pred_def Let_def)

lemma send_rejected_same:
  "closed s \<or> sealed s \<Longrightarrow> snd (send w x s) = s"
  by (simp add: send_def send_body_def)

lemma send_blocked_same: "fst (send w x s) = Blocked \<Longrightarrow> snd (send w x s) = s"
  by (simp add: send_def split: if_splits)

lemma send_accepted_queue:
  assumes "fst (send w x s) = Returned True"
  shows "queue (snd (send w x s)) =
           (if buffer_size s = 0 then queue s @ [x]
            else drop (Suc (length (queue s)) - unat (buffer_size s)) (queue s @ [x]))"
  using assms
  by (auto simp add: send_def send_body_def Let_def pop_excess_drop word_greater_zero_iff
      split: if_splits)

lemma send_accepted_flags:
  assumes "fst (send w x s) = Returned True"
  shows "closed (snd (send w x s)) = closed s \<and> sealed (snd (send w x s)) = sealed s
         \<and> buffer_size (snd (send w x s)) = buffer_size s"
  using assms
  by (auto simp add: send_def send_body_def Let_def split: if_splits)


lemma send_not_accepted_queue:
  "fst (send w x s) \<noteq> Returned True \<Longrightarrow> queue (snd (send w x s)) = queue s"
  by (auto simp add: send_def send_body_def Let_def split: if_splits)

lemma send_open_succeeds:
  "\<not> closed s \<Longrightarrow> \<not> sealed s \<Longrightarrow> (w \<longrightarrow> length (queue s) < unat (buffer_size s)) \<Longrightarrow>
     fst (send w x s) = Returned True"
  by (auto simp add: send_def send_body_def send_pred_def Let_def)

lemma send_drop_general:
  "\<not> closed s \<Longrightarrow> \<not> sealed s \<Longrightarrow> 0 < buffer_size s \<Longrightarrow>
     send False x s =
       (Returned True,
        s\<lparr>queue := drop (Suc (length (queue s)) - unat (buffer_size s)) (queue s @ [x]),
          dropped_count_f := of_nat (Suc (length (queue s))) - ucast (buffer_size s)\<rparr>)"
  by (simp add: send_def send_body_def Let_def pop_excess_drop)

lemma ucast_as_of_nat: "(ucast (b :: uint) :: size_t) = of_nat (unat b)"
  by simp

subsection \<open>recv\<close>

lemma recv_nonempty:
  "\<not> closed s \<Longrightarrow> queue s = m # q \<Longrightarrow> recv w s = (Returned (Some m), s\<lparr>queue := q\<rparr>)"
  by (simp add: recv_def recv_body_def recv_pred_def)

lemma recv_sealed_empty:
  "\<not> closed s \<Longrightarrow> sealed s \<Longrightarrow> queue s = [] \<Longrightarrow>
     recv w s = (Returned None, s\<lparr>closed := True\<rparr>)"
  by (simp add: recv_def recv_body_def)

lemma recv_cases:
  "(\<exists>m. fst (recv w s) = Returned (Some m) \<and> queue s = m # queue (snd (recv w s)))
   \<or> ((\<forall>m. fst (recv w s) \<noteq> Returned (Some m)) \<and> queue (snd (recv w s)) = queue s)"
  by (cases "queue s") (auto simp add: recv_def recv_body_def)

lemma run_recv_prefix:
  "\<not> closed s \<Longrightarrow> length ws \<le> length (queue s) \<Longrightarrow>
     run (map Recv ws) s =
       (map (\<lambda>m. RRecv (Returned (Some m))) (take (length ws) (queue s)),
        s\<lparr>queue := drop (length ws) (queue s)\<rparr>)"
proof (induction ws arbitrary: s)
  case Nil
  then show ?case by simp
next
  case (Cons w ws)
  then obtain m q where q: "queue s = m # q"
    by (cases "queue s") auto
  with Cons.prems have r: "recv w s = (Returned (Some m), s\<lparr>queue := q\<rparr>)"
    by (simp add: recv_nonempty)
  from Cons.prems q have "\<not> closed (s\<lparr>queue := q\<rparr>)" "length ws \<le> length (queue (s\<lparr>queue := q\<rparr>))"
    by simp_all
  from Cons.IH [OF this] r q show ?case by simp
qed

section \<open>Drop-oldest and the overflow counter\<close>

text \<open>
  Under the drop policy (\<open>wait_while_full = false\<close>) a send into an open bounded channel
  that is exactly full pops the one oldest element and stores \<open>1\<close> in the counter; a send
  that makes the channel exactly full stores \<open>0\<close>. The value stored never depends on the
  value the counter held before.
\<close>

lemma send_full_evicts_oldest:
  assumes "\<not> closed s" and "\<not> sealed s" and "0 < buffer_size s"
    and "queue s = m # q" and "length (queue s) = unat (buffer_size s)"
  shows "send False x s = (Returned True, s\<lparr>queue := q @ [x], dropped_count_f := 1\<rparr>)"
proof -
  have "(of_nat (Suc (length (queue s))) :: size_t) - ucast (buffer_size s) = 1"
    unfolding assms(5) ucast_as_of_nat by simp
  with assms show ?thesis by (simp add: send_drop_general)
qed

lemma send_exact_fit_reports_zero:
  assumes "\<not> closed s" and "\<not> sealed s" and "0 < buffer_size s"
    and "Suc (length (queue s)) = unat (buffer_size s)"
  shows "send False x s = (Returned True, s\<lparr>queue := queue s @ [x], dropped_count_f := 0\<rparr>)"
proof -
  have "(of_nat (Suc (length (queue s))) :: size_t) - ucast (buffer_size s) = 0"
    unfolding assms(4) ucast_as_of_nat by simp
  with assms show ?thesis by (simp add: send_drop_general)
qed

lemma dropped_count_per_call:
  "fst (send w x s) = Returned True \<Longrightarrow>
     dropped_count (snd (send w x (s\<lparr>dropped_count_f := v\<rparr>))) = dropped_count (snd (send w x s))"
  by (auto simp add: send_def send_body_def send_pred_def dropped_count_def Let_def
      split: if_splits)

text \<open>
  C1. On a channel of capacity \<open>c > 0\<close> under the drop policy, a send into a full channel
  evicts the single oldest element and \<open>dropped_count()\<close> is \<open>1\<close> afterwards; after a
  successful send that does not overflow, \<open>dropped_count()\<close> is \<open>0\<close>.

  The second half does not hold in the source. \<open>d = queue.size() - buffer_size\<close> is
  computed in \<open>size_t\<close> before the loop tests whether anything is to be popped, so a send
  that leaves the queue shorter than the capacity stores the wrapped difference. On a fresh
  channel of capacity \<open>2\<close> the first send returns \<open>true\<close>, leaves one element queued and
  evicts nothing, and \<open>dropped_count()\<close> is \<open>2 ^ 64 - 1\<close>.
\<close>

theorem dropped_count_underflow:
  "fst (send False (1::nat) (channel_init 0 2)) = Returned True
   \<and> queue (snd (send False (1::nat) (channel_init 0 2))) = [1]
   \<and> dropped_count (snd (send False (1::nat) (channel_init 0 2))) = 18446744073709551615"
  by (simp add: send_def send_body_def channel_init_def dropped_count_def)

section \<open>Capacity 0\<close>

lemma send_unbounded_drop_policy:
  "\<not> closed s \<Longrightarrow> \<not> sealed s \<Longrightarrow> buffer_size s = 0 \<Longrightarrow>
     send False x s = (Returned True, s\<lparr>queue := queue s @ [x], dropped_count_f := 0\<rparr>)"
  by (simp add: send_def send_body_def)

lemma send_wait_unbounded_blocks:
  "\<not> closed s \<Longrightarrow> \<not> sealed s \<Longrightarrow> buffer_size s = 0 \<Longrightarrow> send True x s = (Blocked, s)"
  by (simp add: send_def send_pred_def)

lemma send_wait_unbounded_never_succeeds:
  "buffer_size s = 0 \<Longrightarrow> fst (send True x s) \<noteq> Returned True"
  by (simp add: send_def send_body_def send_pred_def)

text \<open>
  C2. With capacity \<open>0\<close> both the wait for space and the drop step are disabled in
  \<open>send\<close>: a send to an open channel never suspends and always succeeds.

  The drop step is guarded by \<open>buffer_size > 0\<close> and \<open>is_full\<close> returns \<open>false\<close> for
  capacity \<open>0\<close>, but the wait is guarded by \<open>queue.size() >= buffer_size\<close> alone, which
  capacity \<open>0\<close> always satisfies, and its predicate \<open>queue.size() < buffer_size\<close> never
  holds. So \<open>send<true>\<close> on an open channel of capacity \<open>0\<close> suspends, and can only
  return once the channel is sealed or closed, with \<open>false\<close>. Under the drop policy the
  claim holds.
\<close>

theorem send_wait_capacity_zero_suspends:
  "send True (1::nat) (channel_init 0 0) = (Blocked, channel_init 0 0)"
  by (simp add: send_def send_pred_def channel_init_def)

section \<open>Seal, drain, close\<close>

text \<open>
  C3. After \<open>seal()\<close> on an open channel that holds \<open>n\<close> messages, the next \<open>n\<close> receives
  (waiting or polling, in any mix) return those messages in queue order; the channel is not
  closed after any of them. The receive after them returns \<open>false\<close> and closes the
  channel.
\<close>

theorem seal_drain_close:
  assumes "\<not> closed s" and "\<not> sealed s" and "length ws = length (queue s)"
  shows "fst (run (map Recv ws) (seal s)) = map (\<lambda>m. RRecv (Returned (Some m))) (queue s)
    \<and> (\<forall>k \<le> length ws. \<not> is_closed (snd (run (map Recv (take k ws)) (seal s))))
    \<and> fst (recv w (snd (run (map Recv ws) (seal s)))) = Returned None
    \<and> is_closed (snd (recv w (snd (run (map Recv ws) (seal s)))))"
proof -
  let ?t = "seal s"
  from assms have t: "\<not> closed ?t" "sealed ?t" "queue ?t = queue s"
    by (simp_all add: seal_def)
  from assms t have full: "run (map Recv ws) ?t =
      (map (\<lambda>m. RRecv (Returned (Some m))) (queue s), ?t\<lparr>queue := []\<rparr>)"
    using run_recv_prefix [of ?t ws] by simp
  have part: "\<not> is_closed (snd (run (map Recv (take k ws)) ?t))" if "k \<le> length ws" for k
  proof -
    from that assms t have "length (take k ws) \<le> length (queue ?t)" by simp
    from run_recv_prefix [OF t(1) this] t(1) show ?thesis by (simp add: is_closed_def)
  qed
  from t have "recv w (?t\<lparr>queue := []\<rparr>) = (Returned None, ?t\<lparr>queue := [], closed := True\<rparr>)"
    by (simp add: recv_sealed_empty)
  with full part show ?thesis by (simp add: is_closed_def)
qed

theorem seal_drain_close_witness:
  "fst (run (map Recv [True, False])
          (seal \<lparr>queue = [1, 2 :: nat], closed = False, sealed = False,
                 dropped_count_f = 0, buffer_size = 2\<rparr>))
     = [RRecv (Returned (Some 1)), RRecv (Returned (Some 2))]
   \<and> \<not> is_closed (snd (run (map Recv [True, False])
          (seal \<lparr>queue = [1, 2 :: nat], closed = False, sealed = False,
                 dropped_count_f = 0, buffer_size = 2\<rparr>)))
   \<and> fst (recv True (snd (run (map Recv [True, False])
          (seal \<lparr>queue = [1, 2 :: nat], closed = False, sealed = False,
                 dropped_count_f = 0, buffer_size = 2\<rparr>)))) = Returned None
   \<and> is_closed (snd (recv True (snd (run (map Recv [True, False])
          (seal \<lparr>queue = [1, 2 :: nat], closed = False, sealed = False,
                 dropped_count_f = 0, buffer_size = 2\<rparr>)))))"
proof -
  let ?s = "\<lparr>queue = [1, 2 :: nat], closed = False, sealed = False,
                 dropped_count_f = 0, buffer_size = 2\<rparr>"
  have h: "\<not> closed ?s" "\<not> sealed ?s" "length [True, False] = length (queue ?s)"
    by simp_all
  note th = seal_drain_close [OF h, of True]
  from th [THEN conjunct1]
  have a: "fst (run (map Recv [True, False]) (seal ?s))
             = [RRecv (Returned (Some 1)), RRecv (Returned (Some 2))]"
    by simp
  from th [THEN conjunct2, THEN conjunct1, rule_format, of "length [True, False]"]
  have b: "\<not> is_closed (snd (run (map Recv [True, False]) (seal ?s)))"
    by simp
  from a b th [THEN conjunct2, THEN conjunct2] show ?thesis by blast
qed

section \<open>Hard close\<close>

lemma step_closed_failed: "closed s \<Longrightarrow> failed (fst (step c s))"
  by (cases c) (simp_all add: failed_def send_def send_body_def recv_def recv_body_def recv_pred_def)

lemma run_closed_failed: "closed s \<Longrightarrow> \<forall>r \<in> set (fst (run cs s)). failed r"
  by (induction cs arbitrary: s) (simp_all add: step_closed_failed step_closed_id)

text \<open>
  C4. After \<open>close()\<close>, whatever calls follow: every \<open>recv\<close> returns \<open>false\<close> and every
  \<open>send\<close> returns \<open>false\<close> (none suspends), no field changes any more, and the queue
  still holds what it held when \<open>close()\<close> was called.
\<close>

theorem hard_close:
  "(\<forall>r \<in> set (fst (run cs (close s))). failed r)
   \<and> snd (run cs (close s)) = close s
   \<and> queue (snd (run cs (close s))) = queue s"
  using run_closed_failed [OF closed_close, of cs s] run_closed_id [OF closed_close, of cs s]
  by (simp add: queue_close)

theorem hard_close_witness:
  "fst (run [Recv True, Recv False, Send False 3, Send True 4]
         (close \<lparr>queue = [1, 2 :: nat], closed = False, sealed = False,
                 dropped_count_f = 0, buffer_size = 2\<rparr>))
     = [RRecv (Returned None), RRecv (Returned None),
        RSend (Returned False), RSend (Returned False)]
   \<and> failed (RRecv (Returned None) :: nat result)
   \<and> failed (RSend (Returned False) :: nat result)
   \<and> queue (snd (run [Recv True, Recv False, Send False 3, Send True 4]
         (close \<lparr>queue = [1, 2 :: nat], closed = False, sealed = False,
                 dropped_count_f = 0, buffer_size = 2\<rparr>))) = [1, 2]"
proof -
  have ev: "fst (run [Recv True, Recv False, Send False 3, Send True 4]
         (close \<lparr>queue = [1, 2 :: nat], closed = False, sealed = False,
                 dropped_count_f = 0, buffer_size = 2\<rparr>))
     = [RRecv (Returned None), RRecv (Returned None),
        RSend (Returned False), RSend (Returned False)]"
    by (simp add: close_def recv_def recv_body_def recv_pred_def send_def send_body_def)
  note hc = hard_close [of "[Recv True, Recv False, Send False 3, Send True 4]"
      "\<lparr>queue = [1, 2 :: nat], closed = False, sealed = False,
                 dropped_count_f = 0, buffer_size = 2\<rparr>"]
  from hc [THEN conjunct2, THEN conjunct2]
  have q: "queue (snd (run [Recv True, Recv False, Send False 3, Send True 4]
         (close \<lparr>queue = [1, 2 :: nat], closed = False, sealed = False,
                 dropped_count_f = 0, buffer_size = 2\<rparr>))) = [1, 2]"
    by (simp only: channel.simps)
  from hc [THEN conjunct1] have "\<forall>r \<in> set [RRecv (Returned None), RRecv (Returned None),
        RSend (Returned False), RSend (Returned False) :: nat result]. failed r"
    unfolding ev .
  then have f: "failed (RRecv (Returned None) :: nat result)"
    "failed (RSend (Returned False) :: nat result)"
    by simp_all
  from ev f q show ?thesis by blast
qed

section \<open>The capacity invariant\<close>

lemma send_within_capacity:
  "fst (send w x s) = Returned True \<Longrightarrow> within_capacity (snd (send w x s))"
  by (auto simp add: within_capacity_def send_accepted_queue send_accepted_flags)

lemma step_within_capacity: "within_capacity s \<Longrightarrow> within_capacity (snd (step c s))"
proof (cases c)
  case (Send w x)
  assume inv: "within_capacity s"
  show ?thesis
  proof (cases "fst (send w x s)")
    case Blocked
    with inv Send show ?thesis by (simp add: send_blocked_same)
  next
    case (Returned r)
    show ?thesis
    proof (cases r)
      case True
      with Returned Send show ?thesis by (simp add: send_within_capacity)
    next
      case False
      with Returned have "closed s \<or> sealed s" by (simp add: send_rejected_iff)
      with inv Send show ?thesis by (simp add: send_rejected_same)
    qed
  qed
next
  case (Recv w)
  assume "within_capacity s"
  then show ?thesis using Recv
    by (auto simp add: within_capacity_def recv_def recv_body_def)
qed (simp_all add: within_capacity_def close_def seal_def)

lemma run_within_capacity: "within_capacity s \<Longrightarrow> within_capacity (snd (run cs s))"
  by (induction cs arbitrary: s) (simp_all add: step_within_capacity)

lemma init_within_capacity: "within_capacity (channel_init g bs)"
  by (simp add: within_capacity_def channel_init_def)

text \<open>
  C5. On a channel constructed with capacity \<open>bs > 0\<close> the queue is never longer than
  \<open>bs\<close>, after any sequence of calls; and a send that returns \<open>true\<close> leaves at most
  \<open>buffer_size\<close> elements queued, whatever the queue held before.
\<close>

theorem capacity_invariant:
  "(0 < bs \<longrightarrow> length (queue (snd (run cs (channel_init g bs)))) \<le> unat bs)
   \<and> (0 < buffer_size s \<and> fst (send w x s) = Returned True
        \<longrightarrow> length (queue (snd (send w x s))) \<le> unat (buffer_size s))"
proof -
  have "within_capacity (snd (run cs (channel_init g bs)) :: 'a channel)"
    by (rule run_within_capacity [OF init_within_capacity])
  moreover have "buffer_size (snd (run cs (channel_init g bs)) :: 'a channel) = bs"
    by (simp add: run_buffer_size channel_init_def)
  ultimately have a: "0 < bs \<longrightarrow> length (queue (snd (run cs (channel_init g bs)) :: 'a channel)) \<le> unat bs"
    by (auto simp add: within_capacity_def)
  have b: "0 < buffer_size s \<and> fst (send w x s) = Returned True
        \<longrightarrow> length (queue (snd (send w x s))) \<le> unat (buffer_size s)"
    using send_within_capacity [of w x s]
    by (auto simp add: within_capacity_def send_accepted_flags)
  from a b show ?thesis by blast
qed

theorem capacity_invariant_witness:
  "(0 :: uint) < 2
   \<and> queue (snd (run [Send False (1::nat), Send False 2, Send False 3] (channel_init 0 2))) = [2, 3]
   \<and> length (queue (snd (run [Send False (1::nat), Send False 2, Send False 3] (channel_init 0 2))))
        \<le> unat (2 :: uint)"
proof -
  have h: "(0 :: uint) < 2" by simp
  have q: "queue (snd (run [Send False (1::nat), Send False 2, Send False 3] (channel_init 0 2))) = [2, 3]"
    by (simp add: send_def send_body_def channel_init_def)
  from h q capacity_invariant [of 2 "[Send False (1::nat), Send False 2, Send False 3]" 0]
  show ?thesis by simp
qed

section \<open>FIFO order\<close>

lemma run_sends_queue:
  assumes "\<not> closed s" and "\<not> sealed s"
    and "buffer_size s = 0 \<or> length (queue s) + length wms \<le> unat (buffer_size s)"
    and "fst (run (map (\<lambda>(w, m). Send w m) wms) s) = replicate (length wms) (RSend (Returned True))"
  shows "queue (snd (run (map (\<lambda>(w, m). Send w m) wms) s)) = queue s @ map snd wms
    \<and> \<not> closed (snd (run (map (\<lambda>(w, m). Send w m) wms) s))
    \<and> \<not> sealed (snd (run (map (\<lambda>(w, m). Send w m) wms) s))"
  using assms
proof (induction wms arbitrary: s)
  case Nil
  then show ?case by simp
next
  case (Cons wm wms)
  obtain w m where wm: "wm = (w, m)" by (cases wm)
  let ?s1 = "snd (send w m s)"
  from Cons.prems(4) wm have ok: "fst (send w m s) = Returned True"
    and rest: "fst (run (map (\<lambda>(w, m). Send w m) wms) ?s1) = replicate (length wms) (RSend (Returned True))"
    by simp_all
  from ok have fl: "closed ?s1 = closed s" "sealed ?s1 = sealed s" "buffer_size ?s1 = buffer_size s"
    by (simp_all add: send_accepted_flags)
  from ok Cons.prems(3) have q1: "queue ?s1 = queue s @ [m]"
    by (auto simp add: send_accepted_queue)
  from Cons.prems(3) q1 fl
  have room: "buffer_size ?s1 = 0 \<or> length (queue ?s1) + length wms \<le> unat (buffer_size ?s1)"
    by auto
  from Cons.prems(1,2) fl have "\<not> closed ?s1" "\<not> sealed ?s1" by simp_all
  from Cons.IH [OF this room rest] q1 wm show ?case by simp
qed

lemma send_no_evict_queue:
  "fst (send w x s) = Returned True \<Longrightarrow> \<not> evicts (Send w x) s \<Longrightarrow>
     queue (snd (send w x s)) = queue s @ [x]"
  by (auto simp add: send_accepted_queue word_greater_zero_iff)

text \<open>
  Calls in any interleaving: as long as no send evicts, the messages queued at the start
  followed by the messages accepted are the messages delivered followed by the messages
  still queued. The messages delivered are therefore always a prefix, in order, of what was
  queued and accepted.
\<close>

lemma fifo_interleaved:
  "no_eviction cs s \<Longrightarrow>
     queue s @ accepted cs (fst (run cs s)) = delivered (fst (run cs s)) @ queue (snd (run cs s))"
proof (induction cs arbitrary: s)
  case Nil
  show ?case by simp
next
  case (Cons c cs)
  from Cons.prems have ne: "\<not> evicts c s" and rest: "no_eviction cs (snd (step c s))"
    by simp_all
  note ih = Cons.IH [OF rest]
  show ?case
  proof (cases c)
    case (Send w x)
    show ?thesis
    proof (cases "fst (send w x s) = Returned True")
      case True
      with ne Send have "queue (snd (step c s)) = queue s @ [x]"
        by (simp add: send_no_evict_queue del: evicts.simps)
      with ih True Send show ?thesis by simp
    next
      case False
      then have q: "queue (snd (step c s)) = queue s"
        using Send by (simp add: send_not_accepted_queue)
      from False have "accepted (c # cs) (fst (run (c # cs) s)) = accepted cs (fst (run cs (snd (step c s))))"
        using Send by (cases "fst (send w x s)") (auto)
      with ih q Send show ?thesis by simp
    qed
  next
    case (Recv w)
    from recv_cases [of w s] show ?thesis
    proof
      assume "\<exists>m. fst (recv w s) = Returned (Some m) \<and> queue s = m # queue (snd (recv w s))"
      then obtain m where "fst (recv w s) = Returned (Some m)" "queue s = m # queue (snd (recv w s))"
        by blast
      with ih Recv show ?thesis by simp
    next
      assume a: "(\<forall>m. fst (recv w s) \<noteq> Returned (Some m)) \<and> queue (snd (recv w s)) = queue s"
      then have "delivered (fst (run (c # cs) s)) = delivered (fst (run cs (snd (step c s))))"
        using Recv
        by (cases "fst (recv w s)") (auto split: option.splits)
      with a ih Recv show ?thesis by simp
    qed
  qed (use ih in \<open>simp_all add: queue_close queue_seal\<close>)
qed

text \<open>
  Sends back to back on an open channel with room for all of them (or of capacity \<open>0\<close>),
  then as many receives as there are messages queued: the receives hand out the messages
  queued before and then the messages sent, in that order.
\<close>

lemma fifo_sends_then_recvs:
  assumes "\<not> closed s" and "\<not> sealed s"
    and "buffer_size s = 0 \<or> length (queue s) + length wms \<le> unat (buffer_size s)"
    and "fst (run (map (\<lambda>(w, m). Send w m) wms) s) = replicate (length wms) (RSend (Returned True))"
    and "length rs = length (queue s) + length wms"
  shows "fst (run (map Recv rs) (snd (run (map (\<lambda>(w, m). Send w m) wms) s)))
           = map (\<lambda>m. RRecv (Returned (Some m))) (queue s @ map snd wms)"
proof -
  let ?t = "snd (run (map (\<lambda>(w, m). Send w m) wms) s)"
  from run_sends_queue [OF assms(1-4)]
  have t: "queue ?t = queue s @ map snd wms" "\<not> closed ?t" by simp_all
  with assms(5) have "length rs \<le> length (queue ?t)" by simp
  from run_recv_prefix [OF t(2) this] t(1) assms(5) show ?thesis by simp
qed

text \<open>
  When a send cannot evict: never under the blocking policy (a \<open>send<true>\<close> that finds a
  bounded channel full suspends instead), and never on a channel of capacity \<open>0\<close>.
\<close>

lemma blocking_send_never_evicts: "\<not> evicts (Send True x) s"
  by (auto simp add: send_def send_body_def send_pred_def)

lemma unbounded_never_evicts: "buffer_size s = 0 \<Longrightarrow> \<not> evicts c s"
  by (cases c) simp_all

lemma run_append:
  "run (cs @ ds) s =
     (fst (run cs s) @ fst (run ds (snd (run cs s))), snd (run ds (snd (run cs s))))"
  by (induction cs arbitrary: s) simp_all

lemma delivered_append: "delivered (rs @ rs') = delivered rs @ delivered rs'"
  by (induction rs rule: delivered.induct) simp_all

lemma delivered_all: "delivered (map (\<lambda>m. RRecv (Returned (Some m))) q) = q"
  by (induction q) simp_all

text \<open>
  C6. Take any sequence of calls, by any threads, in any interleaving: sends under either
  policy (accepted, rejected or suspended and issued again later), receives waiting or
  polling, \<open>seal\<close>, \<open>close\<close> and the accessors. If none of its sends evicts, then the messages
  delivered by its successful receives, followed by the messages still queued, are exactly
  the messages queued at the start followed by the messages of its successful sends
  \<open>m1, ..., mk\<close>, in that order: nothing is reordered, lost or duplicated. If the channel is
  not closed after it, as many further receives as there are messages queued all succeed and
  hand out the rest, so that all receives together have delivered exactly the messages
  queued at the start and then \<open>m1, ..., mk\<close>.
\<close>

theorem fifo_order:
  assumes "no_eviction cs s"
  shows "delivered (fst (run cs s)) @ queue (snd (run cs s))
           = queue s @ accepted cs (fst (run cs s))
    \<and> (\<not> closed (snd (run cs s)) \<and> length rs = length (queue (snd (run cs s))) \<longrightarrow>
          fst (run (map Recv rs) (snd (run cs s)))
            = map (\<lambda>m. RRecv (Returned (Some m))) (queue (snd (run cs s)))
          \<and> delivered (fst (run (cs @ map Recv rs) s))
            = queue s @ accepted cs (fst (run cs s)))"
proof -
  let ?t = "snd (run cs s)"
  from fifo_interleaved [OF assms]
  have inv: "delivered (fst (run cs s)) @ queue ?t = queue s @ accepted cs (fst (run cs s))"
    by simp
  have drain: "fst (run (map Recv rs) ?t) = map (\<lambda>m. RRecv (Returned (Some m))) (queue ?t)
      \<and> delivered (fst (run (cs @ map Recv rs) s)) = queue s @ accepted cs (fst (run cs s))"
    if nc: "\<not> closed ?t" and len: "length rs = length (queue ?t)"
  proof -
    from len have "length rs \<le> length (queue ?t)" by simp
    from run_recv_prefix [OF nc this] len
    have r: "fst (run (map Recv rs) ?t) = map (\<lambda>m. RRecv (Returned (Some m))) (queue ?t)"
      by simp
    have "delivered (fst (run (cs @ map Recv rs) s))
            = delivered (fst (run cs s)) @ delivered (fst (run (map Recv rs) ?t))"
      by (simp add: run_append delivered_append)
    also have "\<dots> = delivered (fst (run cs s)) @ queue ?t"
      by (simp only: r delivered_all)
    finally show ?thesis using r inv by simp
  qed
  from inv drain show ?thesis by blast
qed

theorem fifo_order_witness:
  "no_eviction [Send False (1::nat), Send True 2, Recv True, Send True 2, Recv False, Send False 3]
     (channel_init 0 1)
   \<and> fst (run [Send False (1::nat), Send True 2, Recv True, Send True 2, Recv False, Send False 3]
        (channel_init 0 1))
      = [RSend (Returned True), RSend Blocked, RRecv (Returned (Some 1)),
         RSend (Returned True), RRecv (Returned (Some 2)), RSend (Returned True)]
   \<and> queue (snd (run [Send False (1::nat), Send True 2, Recv True, Send True 2, Recv False,
        Send False 3] (channel_init 0 1))) = [3]
   \<and> delivered (fst (run ([Send False (1::nat), Send True 2, Recv True, Send True 2, Recv False,
        Send False 3] @ map Recv [True]) (channel_init 0 1))) = [1, 2, 3]"
proof -
  let ?cs = "[Send False (1::nat), Send True 2, Recv True, Send True 2, Recv False, Send False 3]"
  let ?s = "channel_init 0 1 :: nat channel"
  have r: "run ?cs ?s =
      ([RSend (Returned True), RSend Blocked, RRecv (Returned (Some 1)),
        RSend (Returned True), RRecv (Returned (Some 2)), RSend (Returned True)],
       \<lparr>queue = [3], closed = False, sealed = False, dropped_count_f = 0, buffer_size = 1\<rparr>)"
    by (simp add: channel_init_def send_def send_body_def send_pred_def recv_def recv_body_def
        recv_pred_def)
  have ne: "no_eviction ?cs ?s"
    by (simp add: channel_init_def send_def send_body_def send_pred_def recv_def recv_body_def
        recv_pred_def)
  have r1: "fst (run ?cs ?s) =
      [RSend (Returned True), RSend Blocked, RRecv (Returned (Some 1)),
       RSend (Returned True), RRecv (Returned (Some 2)), RSend (Returned True)]"
    unfolding r by simp
  have r2: "queue (snd (run ?cs ?s)) = [3]"
    unfolding r by simp
  have h: "\<not> closed (snd (run ?cs ?s)) \<and> length [True] = length (queue (snd (run ?cs ?s)))"
    unfolding r by simp
  have rhs: "queue ?s @ accepted ?cs (fst (run ?cs ?s)) = [1, 2, 3]"
    unfolding r by (simp add: channel_init_def)
  from fifo_order [OF ne, of "[True]", THEN conjunct2, rule_format, OF h, THEN conjunct2] rhs
  have d: "delivered (fst (run (?cs @ map Recv [True]) ?s)) = [1, 2, 3]"
    by (rule trans)
  from ne r1 r2 d show ?thesis by (intro conjI)
qed

section \<open>Construction\<close>

lemma dropped_count_init: "dropped_count (channel_init g bs) = g"
  by (simp add: dropped_count_def channel_init_def)

text \<open>
  C7. On a freshly constructed channel \<open>dropped_count()\<close> is \<open>0\<close>.

  The constructor does not initialise \<open>dropped_count_\<close>, and \<open>dropped_count()\<close> returns the
  member as it is: the call returns whatever the storage held, here \<open>7\<close>.
\<close>

theorem fresh_dropped_count_not_zero:
  "dropped_count (channel_init 7 1 :: nat channel) = 7"
  by (simp add: dropped_count_def channel_init_def)

section \<open>Rejected and accepted sends\<close>



section \<open>The state only advances\<close>

lemma advances_refl: "advances a a"
  by (cases a) simp_all

lemma advances_trans: "advances a b \<Longrightarrow> advances b c \<Longrightarrow> advances a c"
  by (cases a; cases b) auto

lemma step_advances: "advances (state_of s) (state_of (snd (step c s)))"
  by (cases c)
    (auto simp add: state_of_def close_def seal_def send_def send_body_def recv_def
      recv_body_def Let_def)

lemma run_advances: "advances (state_of s) (state_of (snd (run cs s)))"
proof (induction cs arbitrary: s)
  case Nil
  show ?case by (simp add: advances_refl)
next
  case (Cons c cs)
  from step_advances [of s c] Cons [of "snd (step c s)"] show ?case
    by (auto intro: advances_trans)
qed

text \<open>
  C9. No sequence of calls (\<open>send\<close>, \<open>recv\<close>, \<open>seal\<close>, \<open>close\<close>, the accessors) clears
  \<open>closed\<close> or \<open>sealed\<close> once set, and the state moves only from \<open>Open\<close> to \<open>Sealed\<close> to
  \<open>Closed\<close> or from \<open>Open\<close> to \<open>Closed\<close>.
\<close>

theorem state_never_regresses:
  "(closed s \<longrightarrow> closed (snd (run cs s)))
   \<and> (sealed s \<longrightarrow> sealed (snd (run cs s)))
   \<and> advances (state_of s) (state_of (snd (run cs s)))"
  by (simp add: run_closed_id run_sealed_mono run_advances)

theorem state_never_regresses_witness:
  "sealed (seal (channel_init 0 1 :: nat channel))
   \<and> sealed (snd (run [Send False 5, Recv True, Close] (seal (channel_init 0 1 :: nat channel))))
   \<and> advances Sealed (state_of (snd (run [Send False 5, Recv True, Close] (seal (channel_init 0 1 :: nat channel)))))"
proof -
  have h: "sealed (seal (channel_init 0 1 :: nat channel))"
    by (simp add: seal_def channel_init_def)
  have st: "state_of (seal (channel_init 0 1 :: nat channel)) = Sealed"
    by (simp add: state_of_def seal_def channel_init_def)
  from h st state_never_regresses [of "seal (channel_init 0 1 :: nat channel)" "[Send False 5, Recv True, Close]"]
  show ?thesis by simp
qed

section \<open>Idempotence of close and seal\<close>

text \<open>
  C10. A second \<open>close()\<close> or \<open>seal()\<close> changes nothing; \<open>close()\<close> on a closed channel and
  \<open>seal()\<close> on a sealed or closed channel change no field; \<open>seal()\<close> after \<open>close()\<close>
  changes nothing and in particular does not set \<open>sealed\<close>.
\<close>

theorem close_seal_idempotent:
  "close (close s) = close s \<and> seal (seal s) = seal s
   \<and> (closed s \<longrightarrow> close s = s)
   \<and> (closed s \<or> sealed s \<longrightarrow> seal s = s)
   \<and> seal (close s) = close s
   \<and> sealed (seal (close s)) = sealed s"
  by (simp add: close_def seal_def)

theorem close_seal_idempotent_witness:
  "closed (close (channel_init 0 1 :: nat channel))
   \<and> close (close (channel_init 0 1 :: nat channel)) = close (channel_init 0 1)
   \<and> seal (close (channel_init 0 1 :: nat channel)) = close (channel_init 0 1)
   \<and> \<not> sealed (seal (close (channel_init 0 1 :: nat channel)))"
  using close_seal_idempotent [of "close (channel_init 0 1 :: nat channel)"]
    close_seal_idempotent [of "channel_init 0 1 :: nat channel"]
  by (simp add: close_def channel_init_def)

end
